theory Spec2Isabelle
  imports Main "HOL-Library.Multiset"
begin

section \<open>The bounded-concurrency mapper\<close>

text \<open>
  The repository holds three copies of one helper:
  \<^verbatim>\<open>
  async function mapWithLimit(inputs, limit, asyncMapper) {
      const results = [];
      const executing = new Set();
      for (const item of inputs) {
          const p = Promise.resolve().then(() => asyncMapper(item));
          results.push(p);
          executing.add(p);
          const cleanup = () => executing.delete(p);
          p.then(cleanup, cleanup);
          if (executing.size >= limit) {
              await Promise.race(executing);
          }
      }
      return Promise.all(results);
  }
  \<close>
  in \<open>asyncJavaScrpit.js\<close>, and \<open>processBatchWithLimit(items, limit, processItem)\<close>, twice
  (sections 3.3 and 4.2 of two tutorial files), statement for statement the same in
  both, where the set is called \<open>inProgress\<close> and the clean-up is registered by
  \<^verbatim>\<open>promise.finally(() => inProgress.delete(promise));\<close>

  The function is asynchronous: its body runs in segments, from the call to the first
  \<open>await\<close> (or the \<open>return\<close>), and from one resumption to the next suspension. A segment
  runs to completion; between two segments the event loop runs other jobs: the
  microtask that invokes the operation on an item, the settling of a promise, the
  reactions registered on a settled promise. The model is a state record of what the
  function owns, a function \<open>loop\<close> for a segment of the body, and a function \<open>step\<close>
  for one job of the event loop. Which job runs next is the choice of the
  environment: a run is a list of events, and a property of the mapper is a property
  of every run. The operation is a function from an item to the outcome its promise
  settles with, an error or a value; when it settles, and whether it does, is again
  the choice of the environment.
\<close>

subsection \<open>State\<close>

text \<open>
  A promise \<open>p\<close> of the loop is first scheduled (the microtask
  \<open>() => asyncMapper(item)\<close> is queued), then the operation has been invoked and \<open>p\<close> is
  pending, then \<open>p\<close> is settled: rejected with an error (\<open>Inl\<close>) or fulfilled with a
  value (\<open>Inr\<close>).
\<close>

datatype ('e, 'r) phase = Scheduled | Invoked | Settled "'e + 'r"

text \<open>How the loop body registered the clean-up on the promise.\<close>

datatype registration =
    ThenBoth  \<comment> \<open>\<open>p.then(cleanup, cleanup)\<close>\<close>
  | Finally   \<comment> \<open>\<open>promise.finally(() => inProgress.delete(promise))\<close>\<close>

record ('a, 'e, 'r) promise =
  item :: 'a
  phase :: "('e, 'r) phase"
  reaction :: registration

text \<open>
  Where the body of the function stands: suspended at
  \<open>await Promise.race(executing)\<close>, with the promises the race was called on and the
  items the \<open>for\<close> loop has not reached; after \<open>return Promise.all(results)\<close>, the
  promise of the call not settled yet; or with the promise of the call settled.
\<close>

datatype ('a, 'e, 'r) control =
    Racing "nat set" "'a list"
  | Joining
  | Returned "'e + 'r list"

text \<open>
  Promises are named by their index in \<open>results\<close>. \<open>calls\<close> lists the arguments the
  operation has been invoked with, in order. \<open>unhandled\<close> lists the rejections of
  promises nobody holds: the promise \<open>promise.finally(...)\<close> returns is rejected when
  \<open>promise\<close> is, and the loop body drops it.
\<close>

record ('a, 'e, 'r) mapper =
  results :: "('a, 'e, 'r) promise list"
  executing :: "nat set"
  calls :: "'a list"
  unhandled :: "'e list"
  control :: "('a, 'e, 'r) control"

definition start :: "('a, 'e, 'r) mapper" where
  "start = \<lparr>results = [], executing = {}, calls = [], unhandled = [], control = Joining\<rparr>"

subsection \<open>A segment of the body\<close>

text \<open>
  The \<open>for\<close> loop over the items that remain, up to the next suspension. An item's
  promise is created, pushed and added to the set before the size of the set is
  compared with the limit.
\<close>

fun loop :: "registration \<Rightarrow> int \<Rightarrow> 'a list \<Rightarrow> ('a, 'e, 'r) mapper \<Rightarrow> ('a, 'e, 'r) mapper" where
  "loop reg limit [] s = s\<lparr>control := Joining\<rparr>"
| "loop reg limit (x # rest) s =
     (let p = length (results s);
          s1 = s\<lparr>results := results s @ [\<lparr>item = x, phase = Scheduled, reaction = reg\<rparr>],
                 executing := insert p (executing s)\<rparr>
      in if limit \<le> int (card (executing s1))
         then s1\<lparr>control := Racing (executing s1) rest\<rparr>
         else loop reg limit rest s1)"

subsection \<open>Jobs of the event loop\<close>

datatype event =
    Invoke        \<comment> \<open>the oldest queued microtask \<open>() => asyncMapper(item)\<close> runs\<close>
  | Settle nat    \<comment> \<open>the promise settles with the outcome of the operation\<close>
  | Cleanup nat   \<comment> \<open>the clean-up reaction of a settled promise runs\<close>
  | RaceWon nat   \<comment> \<open>the race is settled by this promise and the body resumes\<close>
  | AllFulfilled  \<comment> \<open>\<open>Promise.all(results)\<close> is fulfilled\<close>
  | AllRejected nat  \<comment> \<open>\<open>Promise.all(results)\<close> is rejected by this promise\<close>

fun fulfilled :: "('a, 'e, 'r) promise \<Rightarrow> 'r option" where
  "fulfilled p = (case phase p of Settled (Inr v) \<Rightarrow> Some v | _ \<Rightarrow> None)"

fun is_settled :: "('a, 'e, 'r) promise \<Rightarrow> bool" where
  "is_settled p = (case phase p of Settled _ \<Rightarrow> True | _ \<Rightarrow> False)"

text \<open>
  A job runs only where the event loop can run it: the microtask of a promise once,
  after those of the promises before it; the settling of a promise after its
  invocation; a reaction after the settling.
  The reactions of one promise run in the order of their registration, after the
  promise has settled. The loop body registers the clean-up on \<open>p\<close> before it calls
  \<open>Promise.race\<close> or \<open>Promise.all\<close>, so a promise settles the race, or rejects
  \<open>Promise.all\<close>, only after its clean-up has removed it from the set; and
  \<open>Promise.all\<close> is fulfilled by the last of its reactions, after every clean-up.
  A rejected race makes \<open>await\<close> throw: the call is rejected and the loop is left.
  Microtasks are queued in the order of the loop, so the operation is invoked on
  the promises in the order of \<open>results\<close>.
\<close>

fun step :: "registration \<Rightarrow> ('a \<Rightarrow> 'e + 'r) \<Rightarrow> int \<Rightarrow> event \<Rightarrow> ('a, 'e, 'r) mapper
    \<Rightarrow> ('a, 'e, 'r) mapper option" where
  "step reg f limit Invoke s =
     (let k = length (calls s) in
      if k < length (results s) \<and> phase (results s ! k) = Scheduled
      then Some (s\<lparr>results := (results s)[k := (results s ! k)\<lparr>phase := Invoked\<rparr>],
                   calls := calls s @ [item (results s ! k)]\<rparr>)
      else None)"
| "step reg f limit (Settle k) s =
     (if k < length (results s) \<and> phase (results s ! k) = Invoked
      then Some (s\<lparr>results :=
                     (results s)[k := (results s ! k)\<lparr>phase := Settled (f (item (results s ! k)))\<rparr>]\<rparr>)
      else None)"
| "step reg f limit (Cleanup k) s =
     (if k < length (results s) \<and> k \<in> executing s
      then (case phase (results s ! k) of
              Settled out \<Rightarrow>
                Some (s\<lparr>executing := executing s - {k},
                        unhandled :=
                          (case (reaction (results s ! k), out) of
                             (Finally, Inl e) \<Rightarrow> unhandled s @ [e]
                           | _ \<Rightarrow> unhandled s)\<rparr>)
            | _ \<Rightarrow> None)
      else None)"
| "step reg f limit (RaceWon q) s =
     (case control s of
        Racing R rest \<Rightarrow>
          if q \<in> R \<and> q \<notin> executing s \<and> q < length (results s)
          then (case phase (results s ! q) of
                  Settled (Inr v) \<Rightarrow> Some (loop reg limit rest s)
                | Settled (Inl e) \<Rightarrow> Some (s\<lparr>control := Returned (Inl e)\<rparr>)
                | _ \<Rightarrow> None)
          else None
      | _ \<Rightarrow> None)"
| "step reg f limit AllFulfilled s =
     (case control s of
        Joining \<Rightarrow>
          (case those (map fulfilled (results s)) of
             Some vs \<Rightarrow> if executing s = {} then Some (s\<lparr>control := Returned (Inr vs)\<rparr>) else None
           | None \<Rightarrow> None)
      | _ \<Rightarrow> None)"
| "step reg f limit (AllRejected q) s =
     (case control s of
        Joining \<Rightarrow>
          if q < length (results s) \<and> q \<notin> executing s
          then (case phase (results s ! q) of
                  Settled (Inl e) \<Rightarrow> Some (s\<lparr>control := Returned (Inl e)\<rparr>)
                | _ \<Rightarrow> None)
          else None
      | _ \<Rightarrow> None)"

text \<open>A run: the events in order; \<open>None\<close> when an event is not enabled where it stands.\<close>

fun run :: "registration \<Rightarrow> ('a \<Rightarrow> 'e + 'r) \<Rightarrow> int \<Rightarrow> event list \<Rightarrow> ('a, 'e, 'r) mapper
    \<Rightarrow> ('a, 'e, 'r) mapper option" where
  "run reg f limit [] s = Some s"
| "run reg f limit (ev # evs) s =
     (case step reg f limit ev s of
        None \<Rightarrow> None
      | Some s' \<Rightarrow> run reg f limit evs s')"

subsection \<open>The three copies\<close>

text \<open>
  The call runs the first segment of the body; the events follow. The last argument
  is the run of the event loop the call is call_state on.
\<close>

definition mapWithLimit ::
  "'a list \<Rightarrow> int \<Rightarrow> ('a \<Rightarrow> 'e + 'r) \<Rightarrow> event list \<Rightarrow> ('a, 'e, 'r) mapper option" where
  "mapWithLimit inputs limit asyncMapper evs =
     run ThenBoth asyncMapper limit evs (loop ThenBoth limit inputs start)"

definition processBatchWithLimit ::
  "'a list \<Rightarrow> int \<Rightarrow> ('a \<Rightarrow> 'e + 'r) \<Rightarrow> event list \<Rightarrow> ('a, 'e, 'r) mapper option" where
  "processBatchWithLimit items limit processItem evs =
     run Finally processItem limit evs (loop Finally limit items start)"

text \<open>The promises launched and not settled yet.\<close>

definition in_flight :: "('a, 'e, 'r) mapper \<Rightarrow> nat list" where
  "in_flight s = filter (\<lambda>k. \<not> is_settled (results s ! k)) [0..<length (results s)]"

subsection \<open>Invariants of a run\<close>

text \<open>
  What the set holds: finitely many promises of \<open>results\<close>, among them every promise
  that has not settled. What the control state records: the promises of a race are
  promises of \<open>results\<close>, the last one launched among them, and none has entered the
  set since; an error the call was rejected with is the error of a rejected promise; a
  value the call was fulfilled with lists the values of the promises, all fulfilled and
  all removed from the set.
\<close>

definition base :: "('a, 'e, 'r) mapper \<Rightarrow> bool" where
  "base s \<longleftrightarrow>
     finite (executing s) \<and> executing s \<subseteq> {..<length (results s)} \<and>
     (\<forall>k<length (results s). (\<forall>out. phase (results s ! k) \<noteq> Settled out) \<longrightarrow> k \<in> executing s)"

definition ctl_ok :: "('a, 'e, 'r) mapper \<Rightarrow> bool" where
  "ctl_ok s \<longleftrightarrow>
     (case control s of
        Racing R rest \<Rightarrow>
          finite R \<and> executing s \<subseteq> R \<and> R \<subseteq> {..<length (results s)} \<and>
          results s \<noteq> [] \<and> length (results s) - 1 \<in> R
      | Joining \<Rightarrow> True
      | Returned (Inl e) \<Rightarrow> (\<exists>k<length (results s). phase (results s ! k) = Settled (Inl e))
      | Returned (Inr vs) \<Rightarrow> executing s = {} \<and> map fulfilled (results s) = map Some vs)"

text \<open>The ceiling: the set, and the set a race was called on, hold at most \<open>limit\<close> promises.\<close>

definition bounded :: "int \<Rightarrow> ('a, 'e, 'r) mapper \<Rightarrow> bool" where
  "bounded limit s \<longleftrightarrow>
     int (card (executing s)) \<le> limit \<and>
     (case control s of Racing R rest \<Rightarrow> int (card R) \<le> limit | _ \<Rightarrow> True)"

text \<open>
  What has been invoked: the operation has been invoked on the first promises of
  \<open>results\<close>, in order, once each, the others are scheduled; and a settled promise
  holds the outcome of the operation on its item.
\<close>

definition called :: "('a \<Rightarrow> 'e + 'r) \<Rightarrow> ('a, 'e, 'r) mapper \<Rightarrow> bool" where
  "called f s \<longleftrightarrow>
     length (calls s) \<le> length (results s) \<and>
     calls s = take (length (calls s)) (map item (results s)) \<and>
     (\<forall>k<length (results s).
        (phase (results s ! k) = Scheduled \<longleftrightarrow> length (calls s) \<le> k) \<and>
        (\<forall>out. phase (results s ! k) = Settled out \<longrightarrow> out = f (item (results s ! k))))"

text \<open>
  What has been launched: the promises of \<open>results\<close> are those of the first inputs, in
  order; the inputs that follow are the ones the loop has not reached, and none is
  left once the loop has ended.
\<close>

definition covers :: "'a list \<Rightarrow> ('a, 'e, 'r) mapper \<Rightarrow> bool" where
  "covers inputs s \<longleftrightarrow>
     (case control s of
        Racing R rest \<Rightarrow> inputs = map item (results s) @ rest
      | Joining \<Rightarrow> inputs = map item (results s)
      | Returned (Inl e) \<Rightarrow> map item (results s) = take (length (results s)) inputs
      | Returned (Inr vs) \<Rightarrow> inputs = map item (results s))"

subsection \<open>A measure of progress\<close>

text \<open>
  The work that remains: two jobs for a scheduled promise (its invocation, its
  settling), one for a pending one, one clean-up for each promise of the set, four for
  an item the loop has not reached, and the resumption or the settling of the call.
\<close>

fun weight :: "('e, 'r) phase \<Rightarrow> nat" where
  "weight Scheduled = 2"
| "weight Invoked = 1"
| "weight (Settled out) = 0"

fun remaining :: "('a, 'e, 'r) control \<Rightarrow> nat" where
  "remaining (Racing R rest) = 4 * length rest + 2"
| "remaining Joining = 1"
| "remaining (Returned r) = 0"

definition work :: "('a, 'e, 'r) mapper \<Rightarrow> nat" where
  "work s = sum_list (map (\<lambda>p. weight (phase p)) (results s)) + card (executing s) + remaining (control s)"

subsection \<open>Sequential runs and the comparison of the copies\<close>

text \<open>
  Sequential execution: a promise is launched only when all the promises before it
  have settled.
\<close>

definition sequential :: "('a, 'e, 'r) mapper \<Rightarrow> bool" where
  "sequential s \<longleftrightarrow>
     (\<forall>k. Suc k < length (results s) \<longrightarrow> (\<exists>out. phase (results s ! k) = Settled out))"






subsection \<open>Operations of the examples\<close>

text \<open>The operation of the demonstrations in the source: \<open>async (n) => n * 2\<close> after a delay.\<close>

definition double :: "nat \<Rightarrow> string + nat" where
  "double n = Inr (n * 2)"

text \<open>An operation that fails on the item 1 and doubles every other item.\<close>

definition first_fails :: "nat \<Rightarrow> string + nat" where
  "first_fails n = (if n = 1 then Inl ''boom'' else Inr (n * 2))"

section \<open>Auxiliary facts\<close>

lemma those_eq_Some: "those ys = Some vs \<longleftrightarrow> ys = map Some vs"
proof (induction ys arbitrary: vs)
  case Nil
  show ?case by auto
next
  case (Cons y ys)
  show ?case
  proof (cases y)
    case None
    then show ?thesis by (cases vs) auto
  next
    case (Some v)
    then show ?thesis using Cons.IH by (cases vs) auto
  qed
qed

lemma step_cases [consumes 1, case_names Invoke Settle Cleanup RaceOk RaceErr AllOk AllErr]:
  assumes "step reg f limit ev s = Some s'"
  obtains
    "ev = Invoke" and "length (calls s) < length (results s)"
      and "phase (results s ! length (calls s)) = Scheduled"
      and "s' = s\<lparr>results := (results s)[length (calls s) :=
                      (results s ! length (calls s))\<lparr>phase := Invoked\<rparr>],
                  calls := calls s @ [item (results s ! length (calls s))]\<rparr>"
  | k where "ev = Settle k" and "k < length (results s)"
      and "phase (results s ! k) = Invoked"
      and "s' = s\<lparr>results := (results s)[k :=
                      (results s ! k)\<lparr>phase := Settled (f (item (results s ! k)))\<rparr>]\<rparr>"
  | k out where "ev = Cleanup k" and "k < length (results s)" and "k \<in> executing s"
      and "phase (results s ! k) = Settled out"
      and "s' = s\<lparr>executing := executing s - {k},
                  unhandled := (case (reaction (results s ! k), out) of
                                  (Finally, Inl e) \<Rightarrow> unhandled s @ [e]
                                | _ \<Rightarrow> unhandled s)\<rparr>"
  | q R rest v where "ev = RaceWon q" and "control s = Racing R rest" and "q \<in> R"
      and "q \<notin> executing s" and "q < length (results s)"
      and "phase (results s ! q) = Settled (Inr v)" and "s' = loop reg limit rest s"
  | q R rest e where "ev = RaceWon q" and "control s = Racing R rest" and "q \<in> R"
      and "q \<notin> executing s" and "q < length (results s)"
      and "phase (results s ! q) = Settled (Inl e)" and "s' = s\<lparr>control := Returned (Inl e)\<rparr>"
  | vs where "ev = AllFulfilled" and "control s = Joining"
      and "map fulfilled (results s) = map Some vs" and "executing s = {}"
      and "s' = s\<lparr>control := Returned (Inr vs)\<rparr>"
  | q e where "ev = AllRejected q" and "control s = Joining" and "q < length (results s)"
      and "q \<notin> executing s" and "phase (results s ! q) = Settled (Inl e)"
      and "s' = s\<lparr>control := Returned (Inl e)\<rparr>"
proof (cases ev)
  case Invoke
  then show ?thesis using assms that(1) by (auto simp: Let_def split: if_splits)
next
  case (Settle k)
  then show ?thesis using assms that(2) by (auto split: if_splits)
next
  case (Cleanup k)
  then show ?thesis using assms that(3) by (auto split: if_splits phase.splits)
next
  case (RaceWon q)
  then show ?thesis using assms that(4,5)
    by (auto split: if_splits control.splits phase.splits sum.splits)
next
  case AllFulfilled
  then show ?thesis using assms that(6)
    by (auto simp: those_eq_Some split: if_splits control.splits option.splits)
next
  case (AllRejected q)
  then show ?thesis using assms that(7)
    by (auto split: if_splits control.splits phase.splits sum.splits)
qed

subsection \<open>The structural invariants\<close>

lemma base_start: "base start"
  by (simp add: base_def start_def)

lemma base_push:
  assumes "base s"
  shows "base (s\<lparr>results := results s @ [\<lparr>item = x, phase = Scheduled, reaction = reg\<rparr>],
                 executing := insert (length (results s)) (executing s)\<rparr>)"
  using assms by (auto simp: base_def nth_append less_Suc_eq)

lemma loop_base: "base s \<Longrightarrow> base (loop reg limit xs s)"
proof (induction xs arbitrary: s)
  case Nil
  then show ?case by (simp add: base_def)
next
  case (Cons x xs)
  let ?s1 = "s\<lparr>results := results s @ [\<lparr>item = x, phase = Scheduled, reaction = reg\<rparr>],
                 executing := insert (length (results s)) (executing s)\<rparr>"
  have b1: "base ?s1" using Cons.prems by (rule base_push)
  show ?case
  proof (cases "limit \<le> int (card (executing ?s1))")
    case True
    then have "loop reg limit (x # xs) s = ?s1\<lparr>control := Racing (executing ?s1) xs\<rparr>"
      by (simp add: Let_def)
    then show ?thesis using b1 by (simp add: base_def)
  next
    case False
    then have "loop reg limit (x # xs) s = loop reg limit xs ?s1"
      by (simp add: Let_def)
    then show ?thesis using Cons.IH [OF b1] by simp
  qed
qed

lemma loop_ctl: "base s \<Longrightarrow> ctl_ok (loop reg limit xs s)"
proof (induction xs arbitrary: s)
  case Nil
  then show ?case by (simp add: ctl_ok_def)
next
  case (Cons x xs)
  let ?s1 = "s\<lparr>results := results s @ [\<lparr>item = x, phase = Scheduled, reaction = reg\<rparr>],
                 executing := insert (length (results s)) (executing s)\<rparr>"
  have b1: "base ?s1" using Cons.prems by (rule base_push)
  show ?case
  proof (cases "limit \<le> int (card (executing ?s1))")
    case True
    then have "loop reg limit (x # xs) s = ?s1\<lparr>control := Racing (executing ?s1) xs\<rparr>"
      by (simp add: Let_def)
    then show ?thesis using b1 by (auto simp: base_def ctl_ok_def)
  next
    case False
    then have "loop reg limit (x # xs) s = loop reg limit xs ?s1"
      by (simp add: Let_def)
    then show ?thesis using Cons.IH [OF b1] by simp
  qed
qed

lemma step_base:
  assumes "step reg f limit ev s = Some s'" and "base s"
  shows "base s'"
  using assms
proof (cases rule: step_cases)
  case Invoke
  then show ?thesis using assms(2) by (auto simp: base_def nth_list_update)
next
  case (Settle k)
  then show ?thesis using assms(2) by (auto simp: base_def nth_list_update)
next
  case (Cleanup k out)
  then show ?thesis using assms(2) by (auto simp: base_def)
next
  case (RaceOk q R rest v)
  then show ?thesis using assms(2) by (simp add: loop_base)
next
  case (RaceErr q R rest e)
  then show ?thesis using assms(2) by (simp add: base_def)
next
  case (AllOk vs)
  then show ?thesis using assms(2) by (simp add: base_def)
next
  case (AllErr q e)
  then show ?thesis using assms(2) by (simp add: base_def)
qed

text \<open>A settled promise stays as it is, and \<open>results\<close> only grows.\<close>

lemma loop_results: "\<exists>ys. results (loop reg limit xs s) = results s @ ys"
proof (induction xs arbitrary: s)
  case Nil
  show ?case by simp
next
  case (Cons x xs)
  let ?s1 = "s\<lparr>results := results s @ [\<lparr>item = x, phase = Scheduled, reaction = reg\<rparr>],
                 executing := insert (length (results s)) (executing s)\<rparr>"
  show ?case
  proof (cases "limit \<le> int (card (executing ?s1))")
    case True
    then show ?thesis by (simp add: Let_def)
  next
    case False
    then have "loop reg limit (x # xs) s = loop reg limit xs ?s1"
      by (simp add: Let_def)
    then show ?thesis using Cons.IH [of ?s1] by auto
  qed
qed

lemma step_settled:
  assumes "step reg f limit ev s = Some s'" and "k < length (results s)"
    and "phase (results s ! k) = Settled out"
  shows "k < length (results s') \<and> phase (results s' ! k) = Settled out"
  using assms(1)
proof (cases rule: step_cases)
  case Invoke
  then show ?thesis using assms(2,3) by (auto simp: nth_list_update)
next
  case (Settle j)
  then show ?thesis using assms(2,3) by (auto simp: nth_list_update)
next
  case (RaceOk q R rest v)
  obtain ys where "results s' = results s @ ys"
    using loop_results [of reg limit rest s] RaceOk(7) by auto
  then show ?thesis using assms(2,3) by (simp add: nth_append)
qed (use assms(2,3) in auto)

lemma step_ctl:
  assumes "step reg f limit ev s = Some s'" and "base s" and "ctl_ok s"
  shows "ctl_ok s'"
proof (cases "control s")
  case (Racing R rest)
  from assms(1) show ?thesis
  proof (cases rule: step_cases)
    case (RaceOk q R rest v)
    then show ?thesis using assms(2) by (simp add: loop_ctl)
  next
    case (RaceErr q R rest e)
    then show ?thesis by (auto simp: ctl_ok_def)
  qed (use Racing assms(3) in \<open>auto simp: ctl_ok_def\<close>)
next
  case Joining
  from assms(1) show ?thesis
  proof (cases rule: step_cases)
    case (AllOk vs)
    then show ?thesis by (auto simp: ctl_ok_def)
  next
    case (AllErr q e)
    then show ?thesis by (auto simp: ctl_ok_def)
  qed (use Joining in \<open>auto simp: ctl_ok_def\<close>)
next
  case (Returned r)
  have ctl: "control s' = Returned r"
    using assms(1) by (cases rule: step_cases) (use Returned in auto)
  show ?thesis
  proof (cases r)
    case (Inl e)
    then obtain k where "k < length (results s)" "phase (results s ! k) = Settled (Inl e)"
      using assms(3) Returned by (auto simp: ctl_ok_def)
    then have "k < length (results s') \<and> phase (results s' ! k) = Settled (Inl e)"
      using step_settled [OF assms(1)] by blast
    then show ?thesis using ctl Inl by (auto simp: ctl_ok_def)
  next
    case (Inr vs)
    then have ex: "executing s = {}" and fm: "map fulfilled (results s) = map Some vs"
      using assms(3) Returned by (auto simp: ctl_ok_def)
    have all: "\<And>k. k < length (results s) \<Longrightarrow> \<exists>out. phase (results s ! k) = Settled out"
      using assms(2) ex by (auto simp: base_def)
    from assms(1) have "s' = s"
    proof (cases rule: step_cases)
      case Invoke
      then show ?thesis using all [of "length (calls s)"] by auto
    next
      case (Settle k)
      then show ?thesis using all [of k] by auto
    next
      case (Cleanup k out)
      then show ?thesis using ex by auto
    qed (use Returned in auto)
    then show ?thesis using assms(3) by simp
  qed
qed

subsection \<open>Invariants along a run\<close>

lemma run_invariant:
  assumes "run reg f limit evs s = Some s'" and "P s"
    and "\<And>ev t t'. P t \<Longrightarrow> step reg f limit ev t = Some t' \<Longrightarrow> P t'"
  shows "P s'"
  using assms(1,2)
proof (induction evs arbitrary: s)
  case Nil
  then show ?case by simp
next
  case (Cons ev evs)
  then obtain t where t: "step reg f limit ev s = Some t" "run reg f limit evs t = Some s'"
    by (auto split: option.splits)
  show ?case using Cons.IH [OF t(2)] assms(3) [OF Cons.prems(2) t(1)] .
qed

lemma run_append:
  "run reg f limit (evs @ evs') s =
     (case run reg f limit evs s of None \<Rightarrow> None | Some t \<Rightarrow> run reg f limit evs' t)"
  by (induction evs arbitrary: s) (auto split: option.splits)

lemma run_base_ctl:
  assumes "run reg f limit evs (loop reg limit xs start) = Some s"
  shows "base s \<and> ctl_ok s"
proof (rule run_invariant [OF assms])
  show "base (loop reg limit xs start) \<and> ctl_ok (loop reg limit xs start)"
    by (simp add: loop_base loop_ctl base_start)
next
  fix ev t t'
  assume "base t \<and> ctl_ok t" and "step reg f limit ev t = Some t'"
  then show "base t' \<and> ctl_ok t'" by (auto intro: step_base step_ctl)
qed

section \<open>The ceiling\<close>

lemma loop_bounded:
  assumes "finite (executing s)" and "int (card (executing s)) < limit"
  shows "bounded limit (loop reg limit xs s)"
  using assms
proof (induction xs arbitrary: s)
  case Nil
  then show ?case by (simp add: bounded_def)
next
  case (Cons x xs)
  let ?s1 = "s\<lparr>results := results s @ [\<lparr>item = x, phase = Scheduled, reaction = reg\<rparr>],
                 executing := insert (length (results s)) (executing s)\<rparr>"
  have fin: "finite (executing ?s1)" using Cons.prems(1) by simp
  have le: "int (card (executing ?s1)) \<le> limit"
    using Cons.prems by (simp add: card_insert_if)
  show ?case
  proof (cases "limit \<le> int (card (executing ?s1))")
    case True
    then have "loop reg limit (x # xs) s = ?s1\<lparr>control := Racing (executing ?s1) xs\<rparr>"
      by (simp add: Let_def)
    then show ?thesis using le by (simp add: bounded_def)
  next
    case False
    then have "loop reg limit (x # xs) s = loop reg limit xs ?s1"
      by (simp add: Let_def)
    moreover have "int (card (executing ?s1)) < limit" using False by simp
    ultimately show ?thesis using Cons.IH [OF fin] by simp
  qed
qed

lemma step_bounded:
  assumes "step reg f limit ev s = Some s'" and "base s" and "ctl_ok s" and "bounded limit s"
  shows "bounded limit s'"
  using assms(1)
proof (cases rule: step_cases)
  case Invoke
  then show ?thesis using assms(4) by (simp add: bounded_def)
next
  case (Settle k)
  then show ?thesis using assms(4) by (simp add: bounded_def)
next
  case (Cleanup k out)
  have "card (executing s - {k}) \<le> card (executing s)"
    using assms(2) by (simp add: base_def card_Diff1_le)
  then show ?thesis using Cleanup assms(4) by (auto simp: bounded_def split: control.splits)
next
  case (RaceOk q R rest v)
  have "finite R" "executing s \<subseteq> R"
    using assms(3) RaceOk(2) by (auto simp: ctl_ok_def)
  then have "executing s \<subset> R" using RaceOk(3,4) by auto
  then have "card (executing s) < card R" using \<open>finite R\<close> by (rule psubset_card_mono [rotated])
  moreover have "int (card R) \<le> limit" using assms(4) RaceOk(2) by (simp add: bounded_def)
  ultimately have "int (card (executing s)) < limit" by simp
  moreover have "finite (executing s)" using assms(2) by (simp add: base_def)
  ultimately show ?thesis using RaceOk(7) by (simp add: loop_bounded)
next
  case (RaceErr q R rest e)
  then show ?thesis using assms(4) by (simp add: bounded_def)
next
  case (AllOk vs)
  then show ?thesis using assms(4) by (simp add: bounded_def)
next
  case (AllErr q e)
  then show ?thesis using assms(4) by (simp add: bounded_def)
qed

lemma run_bounded:
  assumes "run reg f limit evs (loop reg limit xs start) = Some s" and "1 \<le> limit"
  shows "bounded limit s"
proof -
  have "base s \<and> ctl_ok s \<and> bounded limit s"
  proof (rule run_invariant [OF assms(1)])
    have "bounded limit (loop reg limit xs start)"
      using assms(2) by (intro loop_bounded) (simp_all add: start_def)
    then show "base (loop reg limit xs start) \<and> ctl_ok (loop reg limit xs start) \<and>
        bounded limit (loop reg limit xs start)"
      by (simp add: loop_base loop_ctl base_start)
  next
    fix ev t t'
    assume "base t \<and> ctl_ok t \<and> bounded limit t" and "step reg f limit ev t = Some t'"
    then show "base t' \<and> ctl_ok t' \<and> bounded limit t'"
      by (auto intro: step_base step_ctl step_bounded)
  qed
  then show ?thesis by simp
qed

lemma is_settled_iff: "is_settled p \<longleftrightarrow> (\<exists>out. phase p = Settled out)"
  by (cases "phase p") auto

lemma in_flight_executing:
  assumes "base s"
  shows "length (in_flight s) \<le> card (executing s)"
proof -
  have "distinct (in_flight s)" by (simp add: in_flight_def)
  then have "length (in_flight s) = card (set (in_flight s))"
    by (simp add: distinct_card)
  moreover have "set (in_flight s) \<subseteq> executing s"
    using assms by (auto simp: in_flight_def base_def is_settled_iff simp del: is_settled.simps)
  moreover have "finite (executing s)" using assms by (simp add: base_def)
  ultimately show ?thesis by (simp add: card_mono)
qed

text \<open>
  Claim C1. For every input sequence, every limit of at least 1 and every operation, in
  every state a run of \<open>mapWithLimit\<close> or of \<open>processBatchWithLimit\<close> reaches, the set
  \<open>executing\<close> holds at most \<open>limit\<close> promises, and at most \<open>limit\<close> launched operations
  have not settled.
\<close>

theorem in_flight_at_most_limit:
  assumes "1 \<le> limit"
    and "mapWithLimit inputs limit asyncMapper evs = Some s
       \<or> processBatchWithLimit inputs limit asyncMapper evs = Some s"
  shows "int (card (executing s)) \<le> limit \<and> int (length (in_flight s)) \<le> limit"
proof -
  obtain reg where r: "run reg asyncMapper limit evs (loop reg limit inputs start) = Some s"
    using assms(2) by (auto simp: mapWithLimit_def processBatchWithLimit_def)
  have "bounded limit s" using r assms(1) by (rule run_bounded)
  moreover have "length (in_flight s) \<le> card (executing s)"
    using run_base_ctl [OF r] by (simp add: in_flight_executing)
  ultimately show ?thesis by (simp add: bounded_def)
qed

theorem in_flight_at_most_limit_witness:
  "(1::int) \<le> 2 \<and>
   mapWithLimit [1, 2, 3, 4, 5] 2 double [Invoke, Invoke, Settle 1, Cleanup 1, RaceWon 1, Invoke] =
     Some \<lparr>results = [\<lparr>item = 1, phase = Invoked, reaction = ThenBoth\<rparr>,
                      \<lparr>item = 2, phase = Settled (Inr 4), reaction = ThenBoth\<rparr>,
                      \<lparr>item = 3, phase = Invoked, reaction = ThenBoth\<rparr>],
           executing = {0, 2}, calls = [1, 2, 3], unhandled = [],
           control = Racing {0, 2} [4, 5]\<rparr> \<and>
   int (card {0::nat, 2}) \<le> 2 \<and>
   int (length (in_flight \<lparr>results = [\<lparr>item = 1::nat, phase = Invoked :: (string, nat) phase, reaction = ThenBoth\<rparr>,
                      \<lparr>item = 2, phase = Settled (Inr 4), reaction = ThenBoth\<rparr>,
                      \<lparr>item = 3, phase = Invoked, reaction = ThenBoth\<rparr>],
           executing = {0, 2}, calls = [1, 2, 3], unhandled = [],
           control = Racing {0, 2} [4, 5]\<rparr>)) \<le> 2"
proof -
  have r: "mapWithLimit [1, 2, 3, 4, 5] 2 double [Invoke, Invoke, Settle 1, Cleanup 1, RaceWon 1, Invoke] =
     Some \<lparr>results = [\<lparr>item = 1, phase = Invoked, reaction = ThenBoth\<rparr>,
                      \<lparr>item = 2, phase = Settled (Inr 4), reaction = ThenBoth\<rparr>,
                      \<lparr>item = 3, phase = Invoked, reaction = ThenBoth\<rparr>],
           executing = {0, 2}, calls = [1, 2, 3], unhandled = [],
           control = Racing {0, 2} [4, 5]\<rparr>"
    by code_simp
  show ?thesis
    using in_flight_at_most_limit [OF _ disjI1 [OF r], of ] r by simp
qed

section \<open>Results in input order\<close>

subsection \<open>What has been invoked and launched\<close>

lemma map_item_phase [simp]:
  "map item (xs[k := (xs ! k)\<lparr>phase := ph\<rparr>]) = map item xs"
  by (induction xs arbitrary: k) (auto split: nat.splits)

lemma called_start: "called f start"
  by (simp add: called_def start_def)

lemma called_push:
  assumes "called f s"
  shows "called f (s\<lparr>results := results s @ [\<lparr>item = x, phase = Scheduled, reaction = reg\<rparr>],
                     executing := insert (length (results s)) (executing s)\<rparr>)"
  using assms by (auto simp: called_def nth_append less_Suc_eq)

lemma loop_called: "called f s \<Longrightarrow> called f (loop reg limit xs s)"
proof (induction xs arbitrary: s)
  case Nil
  then show ?case by (simp add: called_def)
next
  case (Cons x xs)
  let ?s1 = "s\<lparr>results := results s @ [\<lparr>item = x, phase = Scheduled, reaction = reg\<rparr>],
                 executing := insert (length (results s)) (executing s)\<rparr>"
  have c1: "called f ?s1" using Cons.prems by (rule called_push)
  show ?case
  proof (cases "limit \<le> int (card (executing ?s1))")
    case True
    then have "loop reg limit (x # xs) s = ?s1\<lparr>control := Racing (executing ?s1) xs\<rparr>"
      by (simp add: Let_def)
    then show ?thesis using c1 by (simp add: called_def)
  next
    case False
    then have "loop reg limit (x # xs) s = loop reg limit xs ?s1"
      by (simp add: Let_def)
    then show ?thesis using Cons.IH [OF c1] by simp
  qed
qed

lemma loop_covers:
  "inputs = map item (results s) @ xs \<Longrightarrow> covers inputs (loop reg limit xs s)"
proof (induction xs arbitrary: s)
  case Nil
  then show ?case by (simp add: covers_def)
next
  case (Cons x xs)
  let ?s1 = "s\<lparr>results := results s @ [\<lparr>item = x, phase = Scheduled, reaction = reg\<rparr>],
                 executing := insert (length (results s)) (executing s)\<rparr>"
  have c1: "inputs = map item (results ?s1) @ xs" using Cons.prems by simp
  show ?case
  proof (cases "limit \<le> int (card (executing ?s1))")
    case True
    then have "loop reg limit (x # xs) s = ?s1\<lparr>control := Racing (executing ?s1) xs\<rparr>"
      by (simp add: Let_def)
    then show ?thesis using c1 by (simp add: covers_def)
  next
    case False
    then have "loop reg limit (x # xs) s = loop reg limit xs ?s1"
      by (simp add: Let_def)
    then show ?thesis using Cons.IH [OF c1] by simp
  qed
qed

lemma step_called:
  assumes "step reg f limit ev s = Some s'" and "called f s"
  shows "called f s'"
  using assms(1)
proof (cases rule: step_cases)
  case Invoke
  let ?k = "length (calls s)"
  have "take (Suc ?k) (map item (results s)) = take ?k (map item (results s)) @ [item (results s ! ?k)]"
    using Invoke(2) by (simp add: take_Suc_conv_app_nth)
  then show ?thesis using Invoke assms(2)
    by (auto simp: called_def nth_list_update)
next
  case (Settle k)
  then show ?thesis using assms(2)
    by (auto simp: called_def nth_list_update)
next
  case (Cleanup k out)
  then show ?thesis using assms(2) by (simp add: called_def)
next
  case (RaceOk q R rest v)
  then show ?thesis using assms(2) by (simp add: loop_called)
next
  case (RaceErr q R rest e)
  then show ?thesis using assms(2) by (simp add: called_def)
next
  case (AllOk vs)
  then show ?thesis using assms(2) by (simp add: called_def)
next
  case (AllErr q e)
  then show ?thesis using assms(2) by (simp add: called_def)
qed

lemma step_covers:
  assumes "step reg f limit ev s = Some s'" and "covers inputs s"
  shows "covers inputs s'"
  using assms(1)
proof (cases rule: step_cases)
  case Invoke
  then show ?thesis using assms(2)
    by (auto simp: covers_def split: control.splits sum.splits)
next
  case (Settle k)
  then show ?thesis using assms(2)
    by (auto simp: covers_def split: control.splits sum.splits)
next
  case (Cleanup k out)
  then show ?thesis using assms(2)
    by (auto simp: covers_def split: control.splits sum.splits)
next
  case (RaceOk q R rest v)
  have "inputs = map item (results s) @ rest"
    using assms(2) RaceOk(2) by (simp add: covers_def)
  then have "covers inputs (loop reg limit rest s)" by (rule loop_covers)
  then show ?thesis using RaceOk(7) by simp
next
  case (RaceErr q R rest e)
  then show ?thesis using assms(2) by (simp add: covers_def)
next
  case (AllOk vs)
  then show ?thesis using assms(2) by (simp add: covers_def)
next
  case (AllErr q e)
  then show ?thesis using assms(2) by (simp add: covers_def)
qed

text \<open>All four invariants, along a run from the call.\<close>

lemma run_inv:
  fixes f :: "'a \<Rightarrow> 'e + 'r"
  assumes "run reg f limit evs (loop reg limit inputs start) = Some s"
  shows "base s \<and> ctl_ok s \<and> called f s \<and> covers inputs s"
proof (rule run_invariant [OF assms])
  let ?s0 = "loop reg limit inputs (start :: ('a, 'e, 'r) mapper)"
  have "covers inputs ?s0"
    by (rule loop_covers) (simp add: start_def)
  moreover have "base ?s0" by (rule loop_base) (rule base_start)
  moreover have "ctl_ok ?s0" by (rule loop_ctl) (rule base_start)
  moreover have "called f ?s0" by (rule loop_called) (rule called_start)
  ultimately show "base ?s0 \<and> ctl_ok ?s0 \<and> called f ?s0 \<and> covers inputs ?s0"
    by blast
next
  fix ev t t'
  assume "base t \<and> ctl_ok t \<and> called f t \<and> covers inputs t"
    and "step reg f limit ev t = Some t'"
  then show "base t' \<and> ctl_ok t' \<and> called f t' \<and> covers inputs t'"
    by (auto intro: step_base step_ctl step_called step_covers)
qed

text \<open>A fulfilled call returns, index by index, what the operation resolved to.\<close>

lemma returned_values:
  assumes "ctl_ok s" and "called f s" and "covers inputs s" and "control s = Returned (Inr vs)"
  shows "map Inr vs = map f inputs"
proof -
  have fm: "map fulfilled (results s) = map Some vs"
    and inp: "inputs = map item (results s)"
    using assms by (auto simp: ctl_ok_def covers_def)
  have "length (map fulfilled (results s)) = length (map Some vs)"
    using fm by simp
  then have len: "length vs = length (results s)" by simp
  show ?thesis
  proof (rule nth_equalityI)
    show "length (map Inr vs) = length (map f inputs)" using len inp by simp
  next
    fix k assume "k < length (map Inr vs)"
    then have k: "k < length (results s)" using len by simp
    have "map fulfilled (results s) ! k = map Some vs ! k"
      using fm by simp
    then have "fulfilled (results s ! k) = Some (vs ! k)"
      using k len by simp
    then have "phase (results s ! k) = Settled (Inr (vs ! k))"
      by (auto split: phase.splits sum.splits)
    then have "Inr (vs ! k) = f (item (results s ! k))"
      using assms(2) k by (auto simp: called_def)
    then show "map Inr vs ! k = map f inputs ! k"
      using k len inp by simp
  qed
qed

lemma returned_error:
  assumes "ctl_ok s" and "called f s" and "covers inputs s" and "control s = Returned (Inl e)"
  shows "\<exists>x\<in>set inputs. f x = Inl e"
proof -
  obtain k where k: "k < length (results s)" "phase (results s ! k) = Settled (Inl e)"
    using assms(1,4) by (auto simp: ctl_ok_def)
  then have fk: "f (item (results s ! k)) = Inl e"
    using assms(2) by (auto simp: called_def)
  have pre: "map item (results s) = take (length (results s)) inputs"
    using assms(3,4) by (simp add: covers_def)
  have "length (map item (results s)) = length (take (length (results s)) inputs)"
    using pre by simp
  then have "length (results s) \<le> length inputs" by simp
  moreover have "map item (results s) ! k = take (length (results s)) inputs ! k"
    using pre by simp
  then have "item (results s ! k) = inputs ! k"
    using k(1) by simp
  ultimately have "item (results s ! k) \<in> set inputs" using k(1) by simp
  then show ?thesis using fk by blast
qed

subsection \<open>Progress\<close>

lemma loop_work:
  "work (loop reg limit xs s) \<le>
     sum_list (map (\<lambda>p. weight (phase p)) (results s)) + card (executing s) + 4 * length xs + 1"
proof (induction xs arbitrary: s)
  case Nil
  show ?case by (simp add: work_def)
next
  case (Cons x xs)
  let ?s1 = "s\<lparr>results := results s @ [\<lparr>item = x, phase = Scheduled, reaction = reg\<rparr>],
                 executing := insert (length (results s)) (executing s)\<rparr>"
  have c: "card (executing ?s1) \<le> card (executing s) + 1"
    by (cases "finite (executing s)") (simp_all add: card_insert_if)
  have w: "sum_list (map (\<lambda>p. weight (phase p)) (results ?s1)) = sum_list (map (\<lambda>p. weight (phase p)) (results s)) + 2"
    by simp
  show ?case
  proof (cases "limit \<le> int (card (executing ?s1))")
    case True
    then have "loop reg limit (x # xs) s = ?s1\<lparr>control := Racing (executing ?s1) xs\<rparr>"
      by (simp add: Let_def)
    then have "work (loop reg limit (x # xs) s) =
        sum_list (map (\<lambda>p. weight (phase p)) (results ?s1)) + card (executing ?s1) + (4 * length xs + 2)"
      by (simp add: work_def)
    then show ?thesis using c w by simp
  next
    case False
    then have "loop reg limit (x # xs) s = loop reg limit xs ?s1"
      by (simp add: Let_def)
    then have "work (loop reg limit (x # xs) s) \<le>
        sum_list (map (\<lambda>p. weight (phase p)) (results ?s1)) + card (executing ?s1) + 4 * length xs + 1"
      using Cons.IH [of ?s1] by simp
    then show ?thesis using c w by simp
  qed
qed

lemma sum_list_weight_update:
  assumes "k < length xs" and "weight (phase p) < weight (phase (xs ! k))"
  shows "sum_list (map (\<lambda>p. weight (phase p)) (xs[k := p])) < sum_list (map (\<lambda>p. weight (phase p)) xs)"
  using assms
proof (induction xs arbitrary: k)
  case Nil
  then show ?case by simp
next
  case (Cons y ys)
  then show ?case by (cases k) auto
qed

lemma step_work:
  assumes "step reg f limit ev s = Some s'" and "base s"
  shows "work s' < work s"
  using assms(1)
proof (cases rule: step_cases)
  case Invoke
  have "sum_list (map (\<lambda>p. weight (phase p)) ((results s)[length (calls s) :=
            (results s ! length (calls s))\<lparr>phase := Invoked\<rparr>]))
        < sum_list (map (\<lambda>p. weight (phase p)) (results s))"
    using Invoke(2,3) by (intro sum_list_weight_update) simp_all
  then show ?thesis using Invoke(4) by (simp add: work_def)
next
  case (Settle k)
  have "sum_list (map (\<lambda>p. weight (phase p)) ((results s)[k :=
            (results s ! k)\<lparr>phase := Settled (f (item (results s ! k)))\<rparr>]))
        < sum_list (map (\<lambda>p. weight (phase p)) (results s))"
    using Settle(2,3) by (intro sum_list_weight_update) simp_all
  then show ?thesis using Settle(4) by (simp add: work_def)
next
  case (Cleanup k out)
  have "card (executing s - {k}) < card (executing s)"
    using Cleanup(3) assms(2) unfolding base_def by (intro card_Diff1_less) auto
  then show ?thesis using Cleanup(5) by (simp add: work_def)
next
  case (RaceOk q R rest v)
  have "work s' \<le> sum_list (map (\<lambda>p. weight (phase p)) (results s)) + card (executing s) + 4 * length rest + 1"
    using loop_work [of reg limit rest s] RaceOk(7) by simp
  then show ?thesis using RaceOk(2) by (simp add: work_def)
next
  case (RaceErr q R rest e)
  then show ?thesis by (simp add: work_def)
next
  case (AllOk vs)
  then show ?thesis by (simp add: work_def)
next
  case (AllErr q e)
  then show ?thesis by (simp add: work_def)
qed

text \<open>As long as the call has not settled, some job can run.\<close>

lemma step_enabled:
  fixes s :: "('a, 'e, 'r) mapper"
  assumes "base s" and "ctl_ok s" and "called f s" and "\<forall>r. control s \<noteq> Returned r"
  shows "\<exists>ev s'. step reg f limit ev s = Some s'"
proof (cases "length (calls s) < length (results s)")
  case True
  then have "phase (results s ! length (calls s)) = Scheduled"
    using assms(3) by (simp add: called_def)
  then have "step reg f limit Invoke s \<noteq> None" using True by (simp add: Let_def)
  then show ?thesis by blast
next
  case False
  then have nosched: "\<And>k. k < length (results s) \<Longrightarrow> phase (results s ! k) \<noteq> Scheduled"
    using assms(3) by (auto simp: called_def)
  show ?thesis
  proof (cases "\<exists>k<length (results s). phase (results s ! k) = Invoked")
    case True
    then obtain k where "k < length (results s)" "phase (results s ! k) = Invoked" by blast
    then have "step reg f limit (Settle k) s \<noteq> None" by simp
    then show ?thesis by blast
  next
    case False
    then have settled: "\<And>k. k < length (results s) \<Longrightarrow> \<exists>out. phase (results s ! k) = Settled out"
      using nosched by (metis phase.exhaust)
    show ?thesis
    proof (cases "executing s = {}")
      case False
      then obtain k where k: "k \<in> executing s" by blast
      then have "k < length (results s)" using assms(1) by (auto simp: base_def)
      then have "step reg f limit (Cleanup k) s \<noteq> None"
        using k settled [of k] by auto
      then show ?thesis by blast
    next
      case True
      show ?thesis
      proof (cases "control s")
        case (Racing R rest)
        let ?q = "length (results s) - 1"
        have q: "?q \<in> R" "?q < length (results s)"
          using assms(2) Racing by (auto simp: ctl_ok_def)
        obtain out where "phase (results s ! ?q) = Settled out"
          using settled [OF q(2)] by blast
        then have "step reg f limit (RaceWon ?q) s \<noteq> None"
          using q True Racing by (cases out) auto
        then show ?thesis by blast
      next
        case Joining
        show ?thesis
        proof (cases "\<exists>k<length (results s). \<exists>e. phase (results s ! k) = Settled (Inl e)")
          case True
          then obtain k e where "k < length (results s)" "phase (results s ! k) = Settled (Inl e)"
            by blast
          then have "step reg f limit (AllRejected k) s \<noteq> None"
            using Joining \<open>executing s = {}\<close> by simp
          then show ?thesis by blast
        next
          case False
          have "map fulfilled (results s) = map Some (map (\<lambda>p. the (fulfilled p)) (results s))"
          proof (rule nth_equalityI)
            show "length (map fulfilled (results s)) =
                length (map Some (map (\<lambda>p. the (fulfilled p)) (results s)))" by simp
          next
            fix k assume "k < length (map fulfilled (results s))"
            then have k: "k < length (results s)" by simp
            obtain out where out: "phase (results s ! k) = Settled out"
              using settled [OF k] by blast
            then obtain v where "out = Inr v" using False k by (cases out) auto
            then show "map fulfilled (results s) ! k =
                map Some (map (\<lambda>p. the (fulfilled p)) (results s)) ! k"
              using k out by simp
          qed
          then have "those (map fulfilled (results s)) =
              Some (map (\<lambda>p. the (fulfilled p)) (results s))"
            by (simp only: those_eq_Some)
          then have "step reg f limit AllFulfilled s \<noteq> None"
            using Joining \<open>executing s = {}\<close> by simp
          then show ?thesis by blast
        qed
      next
        case (Returned r)
        then show ?thesis using assms(4) by simp
      qed
    qed
  qed
qed

text \<open>Hence every run can be continued to one on which the call settles.\<close>

lemma can_return:
  fixes s :: "('a, 'e, 'r) mapper"
  assumes "base s \<and> ctl_ok s \<and> called f s \<and> covers inputs s"
  shows "\<exists>evs s' r. run reg f limit evs s = Some s' \<and> control s' = Returned r"
  using assms
proof (induction "work s" arbitrary: s rule: less_induct)
  case less
  show ?case
  proof (cases "\<exists>r. control s = Returned r")
    case True
    then obtain r where "control s = Returned r" by blast
    then have "run reg f limit [] s = Some s \<and> control s = Returned r" by simp
    then show ?thesis by blast
  next
    case False
    then obtain ev t where t: "step reg f limit ev s = Some t"
      using step_enabled [of s f reg limit] less.prems by blast
    have inv: "base t \<and> ctl_ok t \<and> called f t \<and> covers inputs t"
      using less.prems t by (auto intro: step_base step_ctl step_called step_covers)
    have "work t < work s" using t less.prems by (auto intro: step_work)
    then obtain evs s' r where "run reg f limit evs t = Some s'" "control s' = Returned r"
      using less.hyps [OF _ inv] by blast
    then have "run reg f limit (ev # evs) s = Some s' \<and> control s' = Returned r"
      using t by simp
    then show ?thesis by blast
  qed
qed

text \<open>
  Claim C2. For every non-empty input sequence, every limit of at least 1 and every
  operation that succeeds on every input, with \<open>g x\<close> the value it resolves to on \<open>x\<close>:
  on every run, a settled call is fulfilled with \<open>map g inputs\<close>, which has the length of
  the input and \<open>g (inputs ! i)\<close> at index \<open>i\<close>, in whatever order the promises settled;
  and every run can be continued to one on which the call is fulfilled so.
\<close>

theorem results_in_input_order:
  fixes asyncMapper :: "'a \<Rightarrow> 'e + 'r"
  assumes "inputs \<noteq> []" and "1 \<le> limit"
    and "\<forall>x\<in>set inputs. asyncMapper x = Inr (g x)"
    and "mapWithLimit inputs limit asyncMapper evs = Some s"
  shows "(\<forall>r. control s = Returned r \<longrightarrow> r = Inr (map g inputs)) \<and>
    (\<exists>evs' s'. mapWithLimit inputs limit asyncMapper (evs @ evs') = Some s' \<and>
       control s' = Returned (Inr (map g inputs)))"
proof -
  have r: "run ThenBoth asyncMapper limit evs (loop ThenBoth limit inputs start) = Some s"
    using assms(4) by (simp add: mapWithLimit_def)
  have ok: "control t = Returned r \<Longrightarrow> r = Inr (map g inputs)"
    if inv: "base t \<and> ctl_ok t \<and> called asyncMapper t \<and> covers inputs t"
    for t :: "('a, 'e, 'r) mapper" and r
  proof (cases r)
    case (Inl e)
    assume "control t = Returned r"
    then have "\<exists>x\<in>set inputs. asyncMapper x = Inl e"
      using inv Inl by (intro returned_error [of t]) simp_all
    then show ?thesis using assms(3) by auto
  next
    case (Inr vs)
    assume "control t = Returned r"
    then have "map Inr vs = map asyncMapper inputs"
      using inv Inr by (intro returned_values [of t]) simp_all
    also have "\<dots> = map (Inr :: 'r \<Rightarrow> 'e + 'r) (map g inputs)" using assms(3) by simp
    finally have "vs = map g inputs" by (rule map_injective) (simp add: inj_on_def)
    then show ?thesis using Inr by simp
  qed
  have inv: "base s \<and> ctl_ok s \<and> called asyncMapper s \<and> covers inputs s"
    using r by (rule run_inv)
  then obtain evs' s' r' where c: "run ThenBoth asyncMapper limit evs' s = Some s'"
      "control s' = Returned r'"
    using can_return [of s asyncMapper inputs ThenBoth limit] by blast
  have r': "run ThenBoth asyncMapper limit (evs @ evs') (loop ThenBoth limit inputs start) = Some s'"
    using r c(1) by (simp add: run_append)
  then have "base s' \<and> ctl_ok s' \<and> called asyncMapper s' \<and> covers inputs s'"
    by (rule run_inv)
  then have "r' = Inr (map g inputs)" using c(2) by (rule ok)
  then have "mapWithLimit inputs limit asyncMapper (evs @ evs') = Some s' \<and>
      control s' = Returned (Inr (map g inputs))"
    using r' c(2) by (simp add: mapWithLimit_def)
  then show ?thesis using ok [OF inv] by blast
qed

theorem results_in_input_order_witness:
  "[1, 2, 3, 4, 5 :: nat] \<noteq> [] \<and> (1::int) \<le> 2 \<and>
   map double [1, 2, 3, 4, 5] = map (\<lambda>x. Inr (x * 2)) [1, 2, 3, 4, 5] \<and>
   mapWithLimit [1, 2, 3, 4, 5] 2 double
     [Invoke, Invoke, Settle 1, Cleanup 1, RaceWon 1, Invoke, Settle 2, Cleanup 2, RaceWon 2,
      Invoke, Settle 0, Cleanup 0, RaceWon 0, Invoke, Settle 4, Cleanup 4, RaceWon 4,
      Settle 3, Cleanup 3, AllFulfilled] =
     Some \<lparr>results = [\<lparr>item = 1, phase = Settled (Inr 2), reaction = ThenBoth\<rparr>,
                      \<lparr>item = 2, phase = Settled (Inr 4), reaction = ThenBoth\<rparr>,
                      \<lparr>item = 3, phase = Settled (Inr 6), reaction = ThenBoth\<rparr>,
                      \<lparr>item = 4, phase = Settled (Inr 8), reaction = ThenBoth\<rparr>,
                      \<lparr>item = 5, phase = Settled (Inr 10), reaction = ThenBoth\<rparr>],
           executing = {}, calls = [1, 2, 3, 4, 5], unhandled = [],
           control = Returned (Inr (map (\<lambda>x. x * 2) [1, 2, 3, 4, 5]))\<rparr>"
proof -
  have h1: "[1, 2, 3, 4, 5 :: nat] \<noteq> []" by simp
  have h2: "(1::int) \<le> 2" by simp
  have h3: "\<forall>x\<in>set [1, 2, 3, 4, 5]. double x = Inr (x * 2)" by (simp add: double_def)
  have r: "mapWithLimit [1, 2, 3, 4, 5] 2 double
     [Invoke, Invoke, Settle 1, Cleanup 1, RaceWon 1, Invoke, Settle 2, Cleanup 2, RaceWon 2,
      Invoke, Settle 0, Cleanup 0, RaceWon 0, Invoke, Settle 4, Cleanup 4, RaceWon 4,
      Settle 3, Cleanup 3, AllFulfilled] =
     Some \<lparr>results = [\<lparr>item = 1, phase = Settled (Inr 2), reaction = ThenBoth\<rparr>,
                      \<lparr>item = 2, phase = Settled (Inr 4), reaction = ThenBoth\<rparr>,
                      \<lparr>item = 3, phase = Settled (Inr 6), reaction = ThenBoth\<rparr>,
                      \<lparr>item = 4, phase = Settled (Inr 8), reaction = ThenBoth\<rparr>,
                      \<lparr>item = 5, phase = Settled (Inr 10), reaction = ThenBoth\<rparr>],
           executing = {}, calls = [1, 2, 3, 4, 5], unhandled = [],
           control = Returned (Inr [2, 4, 6, 8, 10])\<rparr>"
    by code_simp
  show ?thesis
    using results_in_input_order [OF h1 h2 h3 r] h1 h2 h3 r by simp
qed

section \<open>Settling of the call\<close>

lemma returned_ok_settled:
  assumes "base s" and "ctl_ok s" and "control s = Returned (Inr vs)"
  shows "executing s = {} \<and> in_flight s = [] \<and>
    (\<forall>k<length (results s). \<exists>v. phase (results s ! k) = Settled (Inr v))"
proof -
  have ex: "executing s = {}" and fm: "map fulfilled (results s) = map Some vs"
    using assms(2,3) by (auto simp: ctl_ok_def)
  have "length (map fulfilled (results s)) = length (map Some vs)" using fm by simp
  then have len: "length vs = length (results s)" by simp
  have ful: "\<exists>v. phase (results s ! k) = Settled (Inr v)" if k: "k < length (results s)" for k
  proof -
    have "map fulfilled (results s) ! k = map Some vs ! k" using fm by simp
    then have "fulfilled (results s ! k) = Some (vs ! k)" using k len by simp
    then show ?thesis by (auto split: phase.splits sum.splits)
  qed
  have "is_settled (results s ! k)" if "k < length (results s)" for k
    using ful [OF that] by auto
  then have "in_flight s = []"
    by (simp add: in_flight_def filter_empty_conv del: is_settled.simps)
  then show ?thesis using ex ful by blast
qed

lemma launched_prefix:
  assumes "covers inputs s"
  shows "map item (results s) = take (length (results s)) inputs"
proof (cases "control s")
  case (Racing R rest)
  then have "inputs = map item (results s) @ rest" using assms by (simp add: covers_def)
  then show ?thesis by simp
next
  case Joining
  then have "inputs = map item (results s)" using assms by (simp add: covers_def)
  then show ?thesis by simp
next
  case (Returned r)
  then show ?thesis using assms by (cases r) (auto simp: covers_def)
qed



text \<open>Once the call has settled nothing is launched any more.\<close>

lemma no_launch_after_return:
  assumes "step reg f limit ev s = Some s'" and "control s = Returned r"
  shows "control s' = Returned r \<and> length (results s') = length (results s)"
  using assms(1) by (cases rule: step_cases) (use assms(2) in auto)

text \<open>
  Claim C3, as the code has it. The call is fulfilled only after every input has
  been launched and every promise is fulfilled. It is rejected as soon as a rejected
  promise settles the race or rejects \<open>Promise.all\<close>: with the error of a promise that
  has settled, whatever the other promises are doing.
\<close>

theorem fulfilled_after_all_settled:
  fixes asyncMapper :: "'a \<Rightarrow> 'e + 'r"
  assumes "1 \<le> limit"
    and "mapWithLimit inputs limit asyncMapper evs = Some s
       \<or> processBatchWithLimit inputs limit asyncMapper evs = Some s"
  shows "(\<forall>vs. control s = Returned (Inr vs) \<longrightarrow>
            map item (results s) = inputs \<and>
            (\<forall>k<length (results s). \<exists>v. phase (results s ! k) = Settled (Inr v))) \<and>
         (\<forall>e. control s = Returned (Inl e) \<longrightarrow>
            (\<exists>k<length (results s). phase (results s ! k) = Settled (Inl e)))"
proof -
  obtain reg where "run reg asyncMapper limit evs (loop reg limit inputs start) = Some s"
    using assms(2) by (auto simp: mapWithLimit_def processBatchWithLimit_def)
  then have inv: "base s \<and> ctl_ok s \<and> called asyncMapper s \<and> covers inputs s"
    by (rule run_inv)
  have "map item (results s) = inputs \<and>
      (\<forall>k<length (results s). \<exists>v. phase (results s ! k) = Settled (Inr v))"
    if "control s = Returned (Inr vs)" for vs
    using returned_ok_settled [of s vs] inv that by (simp add: covers_def)
  moreover have "\<exists>k<length (results s). phase (results s ! k) = Settled (Inl e)"
    if "control s = Returned (Inl e)" for e
    using inv that by (simp add: ctl_ok_def)
  ultimately show ?thesis by blast
qed

theorem fulfilled_after_all_settled_witness:
  "(1::int) \<le> 2 \<and>
   mapWithLimit [1, 2, 3] 2 double
     [Invoke, Invoke, Settle 1, Cleanup 1, RaceWon 1, Invoke, Settle 0, Cleanup 0, RaceWon 0,
      Settle 2, Cleanup 2, AllFulfilled] =
     Some \<lparr>results = [\<lparr>item = 1, phase = Settled (Inr 2), reaction = ThenBoth\<rparr>,
                      \<lparr>item = 2, phase = Settled (Inr 4), reaction = ThenBoth\<rparr>,
                      \<lparr>item = 3, phase = Settled (Inr 6), reaction = ThenBoth\<rparr>],
           executing = {}, calls = [1, 2, 3], unhandled = [],
           control = Returned (Inr [2, 4, 6])\<rparr> \<and>
   map item [\<lparr>item = 1::nat, phase = Settled (Inr 2) :: (string, nat) phase, reaction = ThenBoth\<rparr>,
             \<lparr>item = 2, phase = Settled (Inr 4), reaction = ThenBoth\<rparr>,
             \<lparr>item = 3, phase = Settled (Inr 6), reaction = ThenBoth\<rparr>] = [1, 2, 3]"
proof -
  have r: "mapWithLimit [1, 2, 3] 2 double
     [Invoke, Invoke, Settle 1, Cleanup 1, RaceWon 1, Invoke, Settle 0, Cleanup 0, RaceWon 0,
      Settle 2, Cleanup 2, AllFulfilled] =
     Some \<lparr>results = [\<lparr>item = 1, phase = Settled (Inr 2), reaction = ThenBoth\<rparr>,
                      \<lparr>item = 2, phase = Settled (Inr 4), reaction = ThenBoth\<rparr>,
                      \<lparr>item = 3, phase = Settled (Inr 6), reaction = ThenBoth\<rparr>],
           executing = {}, calls = [1, 2, 3], unhandled = [],
           control = Returned (Inr [2, 4, 6])\<rparr>"
    by code_simp
  show ?thesis
    using fulfilled_after_all_settled [OF _ disjI1 [OF r]] r by simp
qed

text \<open>
  Claim C3 as stated fails: with two operations launched and the limit 2, the first
  one fails, the race is rejected and the call with it, while the second operation,
  invoked, has not settled.
\<close>

theorem rejected_before_all_settled_counterexample:
  "mapWithLimit [1, 2, 3] 2 first_fails [Invoke, Invoke, Settle 0, Cleanup 0, RaceWon 0] =
     Some \<lparr>results = [\<lparr>item = 1, phase = Settled (Inl ''boom''), reaction = ThenBoth\<rparr>,
                      \<lparr>item = 2, phase = Invoked, reaction = ThenBoth\<rparr>],
           executing = {1}, calls = [1, 2], unhandled = [],
           control = Returned (Inl ''boom'')\<rparr>"
  by code_simp




text \<open>
  Claim C5, as the code has it. The set is created empty; as long as the operation has
  not been invoked, every promise is only scheduled; and when the call is fulfilled
  the set is empty and no launched operation is left unsettled.
\<close>

theorem set_empty_at_start_and_on_success:
  fixes asyncMapper :: "'a \<Rightarrow> 'e + 'r"
  assumes "1 \<le> limit"
    and "mapWithLimit inputs limit asyncMapper evs = Some s
       \<or> processBatchWithLimit inputs limit asyncMapper evs = Some s"
  shows "executing (start :: ('a, 'e, 'r) mapper) = {} \<and>
         (calls s = [] \<longrightarrow> (\<forall>k<length (results s). phase (results s ! k) = Scheduled)) \<and>
         (\<forall>vs. control s = Returned (Inr vs) \<longrightarrow> executing s = {} \<and> in_flight s = [])"
proof -
  obtain reg where "run reg asyncMapper limit evs (loop reg limit inputs start) = Some s"
    using assms(2) by (auto simp: mapWithLimit_def processBatchWithLimit_def)
  then have inv: "base s \<and> ctl_ok s \<and> called asyncMapper s \<and> covers inputs s"
    by (rule run_inv)
  have "executing s = {} \<and> in_flight s = []" if "control s = Returned (Inr vs)" for vs
    using returned_ok_settled [of s vs] inv that by simp
  moreover have "\<forall>k<length (results s). phase (results s ! k) = Scheduled" if "calls s = []"
    using inv that by (simp add: called_def)
  ultimately show ?thesis by (simp add: start_def)
qed

theorem set_empty_at_start_and_on_success_witness:
  "(1::int) \<le> 2 \<and>
   processBatchWithLimit [1, 2] 2 double
     [Invoke, Invoke, Settle 1, Cleanup 1, RaceWon 1, Settle 0, Cleanup 0, AllFulfilled] =
     Some \<lparr>results = [\<lparr>item = 1, phase = Settled (Inr 2), reaction = Finally\<rparr>,
                      \<lparr>item = 2, phase = Settled (Inr 4), reaction = Finally\<rparr>],
           executing = {}, calls = [1, 2], unhandled = [],
           control = Returned (Inr [2, 4])\<rparr> \<and>
   in_flight \<lparr>results = [\<lparr>item = 1::nat, phase = Settled (Inr 2) :: (string, nat) phase, reaction = Finally\<rparr>,
                         \<lparr>item = 2, phase = Settled (Inr 4), reaction = Finally\<rparr>],
           executing = {}, calls = [1, 2], unhandled = [] :: string list,
           control = Returned (Inr [2, 4])\<rparr> = []"
proof -
  have r: "processBatchWithLimit [1, 2] 2 double
     [Invoke, Invoke, Settle 1, Cleanup 1, RaceWon 1, Settle 0, Cleanup 0, AllFulfilled] =
     Some \<lparr>results = [\<lparr>item = 1, phase = Settled (Inr 2), reaction = Finally\<rparr>,
                      \<lparr>item = 2, phase = Settled (Inr 4), reaction = Finally\<rparr>],
           executing = {}, calls = [1, 2], unhandled = [],
           control = Returned (Inr [2, 4])\<rparr>"
    by code_simp
  show ?thesis
    using set_empty_at_start_and_on_success [OF _ disjI2 [OF r]] r by simp
qed

text \<open>
  Claim C5 as stated fails: with the limit above the number of items nothing is
  awaited in the loop; the first operation fails and rejects \<open>Promise.all\<close>, and the
  call is rejected while the second promise is pending and in the set.
\<close>

theorem set_not_empty_on_failure_counterexample:
  "mapWithLimit [1, 2] 3 first_fails [Invoke, Invoke, Settle 0, Cleanup 0, AllRejected 0] =
     Some \<lparr>results = [\<lparr>item = 1, phase = Settled (Inl ''boom''), reaction = ThenBoth\<rparr>,
                      \<lparr>item = 2, phase = Invoked, reaction = ThenBoth\<rparr>],
           executing = {1}, calls = [1, 2], unhandled = [],
           control = Returned (Inl ''boom'')\<rparr>"
  by code_simp

section \<open>The limit 1 and below\<close>

text \<open>With the limit 1, or below, every launch is followed by a suspension.\<close>

lemma loop_suspends:
  assumes "finite (executing s)" and "limit \<le> 1"
  shows "loop reg limit (x # xs) s =
    s\<lparr>results := results s @ [\<lparr>item = x, phase = Scheduled, reaction = reg\<rparr>],
      executing := insert (length (results s)) (executing s),
      control := Racing (insert (length (results s)) (executing s)) xs\<rparr>"
proof -
  have "1 \<le> card (insert (length (results s)) (executing s))"
    using assms(1) by (simp add: Suc_le_eq card_gt_0_iff)
  then have "limit \<le> int (card (insert (length (results s)) (executing s)))"
    using assms(2) by simp
  then show ?thesis by (simp add: Let_def)
qed

lemma loop_nonpositive:
  assumes "finite (executing s)" and "limit \<le> 0"
  shows "loop reg limit xs s = loop reg 1 xs s"
proof (cases xs)
  case Nil
  then show ?thesis by simp
next
  case (Cons x rest)
  have "limit \<le> 1" using assms(2) by simp
  then show ?thesis using Cons assms(1) by (simp only: loop_suspends)
qed

lemma step_nonpositive:
  assumes "finite (executing s)" and "limit \<le> 0"
  shows "step reg f limit ev s = step reg f 1 ev s"
proof (cases ev)
  case (RaceWon q)
  then show ?thesis using loop_nonpositive [OF assms]
    by (auto split: control.splits phase.splits sum.splits)
qed simp_all

lemma run_nonpositive:
  assumes "base s" and "limit \<le> 0"
  shows "run reg f limit evs s = run reg f 1 evs s"
  using assms(1)
proof (induction evs arbitrary: s)
  case Nil
  show ?case by simp
next
  case (Cons ev evs)
  have fin: "finite (executing s)" using Cons.prems by (simp add: base_def)
  show ?case
  proof (cases "step reg f 1 ev s")
    case None
    then show ?thesis using step_nonpositive [OF fin assms(2)] by simp
  next
    case (Some t)
    then have "base t" using Cons.prems by (rule step_base)
    then show ?thesis using Some step_nonpositive [OF fin assms(2)] Cons.IH by simp
  qed
qed

lemma step_sequential:
  assumes "step reg f 1 ev s = Some s'" and "base s" and "ctl_ok s" and "bounded 1 s"
    and "sequential s"
  shows "sequential s'"
  using assms(1)
proof (cases rule: step_cases)
  case Invoke
  then show ?thesis using assms(5) by (auto simp: sequential_def nth_list_update)
next
  case (Settle k)
  then show ?thesis using assms(5) by (auto simp: sequential_def nth_list_update)
next
  case (Cleanup k out)
  then show ?thesis using assms(5) by (simp add: sequential_def)
next
  case (RaceOk q R rest v)
  let ?n = "length (results s)"
  have R: "finite R" "?n - 1 \<in> R" "results s \<noteq> []"
    using assms(3) RaceOk(2) by (auto simp: ctl_ok_def)
  have "card R \<le> 1" using assms(4) RaceOk(2) by (simp add: bounded_def)
  then have "q = ?n - 1"
    using R(1,2) RaceOk(3) by (metis card_le_Suc0_iff_eq One_nat_def)
  then have last: "\<exists>out. phase (results s ! (?n - 1)) = Settled out"
    using RaceOk(6) by blast
  have all: "\<exists>out. phase (results s ! k) = Settled out" if "k < ?n" for k
  proof (cases "Suc k < ?n")
    case True
    then show ?thesis using assms(5) by (simp add: sequential_def)
  next
    case False
    then have "k = ?n - 1" using that by simp
    then show ?thesis using last by simp
  qed
  have fin: "finite (executing s)" using assms(2) by (simp add: base_def)
  show ?thesis
  proof (cases rest)
    case Nil
    then show ?thesis using RaceOk(7) assms(5) by (simp add: sequential_def)
  next
    case (Cons x xs)
    then have "results s' = results s @ [\<lparr>item = x, phase = Scheduled, reaction = reg\<rparr>]"
      using RaceOk(7) loop_suspends [OF fin, of 1 reg x xs] by simp
    then show ?thesis using all by (auto simp: sequential_def nth_append)
  qed
next
  case (RaceErr q R rest e)
  then show ?thesis using assms(5) by (simp add: sequential_def)
next
  case (AllOk vs)
  then show ?thesis using assms(5) by (simp add: sequential_def)
next
  case (AllErr q e)
  then show ?thesis using assms(5) by (simp add: sequential_def)
qed

lemma run_sequential:
  fixes f :: "'a \<Rightarrow> 'e + 'r"
  assumes "run reg f 1 evs (loop reg 1 inputs start) = Some s"
  shows "sequential s"
proof -
  let ?s0 = "loop reg 1 inputs (start :: ('a, 'e, 'r) mapper)"
  have "base s \<and> ctl_ok s \<and> bounded 1 s \<and> sequential s"
  proof (rule run_invariant [OF assms])
    have "sequential ?s0"
    proof (cases inputs)
      case Nil
      then show ?thesis by (simp add: sequential_def start_def)
    next
      case (Cons x xs)
      have fin: "finite (executing (start :: ('a, 'e, 'r) mapper))" by (simp add: start_def)
      have "results ?s0 = results (start :: ('a, 'e, 'r) mapper) @
          [\<lparr>item = x, phase = Scheduled, reaction = reg\<rparr>]"
        using Cons loop_suspends [OF fin, of 1 reg x xs] by simp
      then show ?thesis by (simp add: sequential_def start_def)
    qed
    moreover have "base ?s0" by (rule loop_base) (rule base_start)
    moreover have "ctl_ok ?s0" by (rule loop_ctl) (rule base_start)
    moreover have "bounded 1 ?s0" by (rule loop_bounded) (simp_all add: start_def)
    ultimately show "base ?s0 \<and> ctl_ok ?s0 \<and> bounded 1 ?s0 \<and> sequential ?s0" by blast
  next
    fix ev t t'
    assume "base t \<and> ctl_ok t \<and> bounded 1 t \<and> sequential t"
      and "step reg f 1 ev t = Some t'"
    then show "base t' \<and> ctl_ok t' \<and> bounded 1 t' \<and> sequential t'"
      by (auto intro: step_base step_ctl step_bounded step_sequential)
  qed
  then show ?thesis by simp
qed

text \<open>
  Claim C6. With the limit 1, in every state of every run: if the promise of
  \<open>inputs ! (i + 1)\<close> has been launched, the promise of \<open>inputs ! i\<close> has settled.
  The operation is invoked on launched promises only.
\<close>

theorem limit_one_is_sequential:
  fixes asyncMapper :: "'a \<Rightarrow> 'e + 'r"
  assumes "mapWithLimit inputs 1 asyncMapper evs = Some s"
    and "Suc i < length (results s)"
  shows "(\<exists>out. phase (results s ! i) = Settled out) \<and>
         item (results s ! i) = inputs ! i \<and> item (results s ! Suc i) = inputs ! Suc i \<and>
         length (calls s) \<le> length (results s)"
proof -
  have r: "run ThenBoth asyncMapper 1 evs (loop ThenBoth 1 inputs start) = Some s"
    using assms(1) by (simp add: mapWithLimit_def)
  then have "sequential s" by (rule run_sequential)
  then have "\<exists>out. phase (results s ! i) = Settled out"
    using assms(2) by (simp add: sequential_def)
  moreover have inv: "base s \<and> ctl_ok s \<and> called asyncMapper s \<and> covers inputs s"
    using r by (rule run_inv)
  then have pre: "map item (results s) = take (length (results s)) inputs"
    by (simp add: launched_prefix)
  have "item (results s ! k) = inputs ! k" if k: "k < length (results s)" for k
  proof -
    have "map item (results s) ! k = take (length (results s)) inputs ! k"
      using pre by simp
    then show ?thesis using k by simp
  qed
  then have "item (results s ! i) = inputs ! i" "item (results s ! Suc i) = inputs ! Suc i"
    using assms(2) by simp_all
  moreover have "length (calls s) \<le> length (results s)"
    using inv by (simp add: called_def)
  ultimately show ?thesis by blast
qed

theorem limit_one_is_sequential_witness:
  "mapWithLimit [1, 2, 3] 1 double [Invoke, Settle 0, Cleanup 0, RaceWon 0, Invoke] =
     Some \<lparr>results = [\<lparr>item = 1, phase = Settled (Inr 2), reaction = ThenBoth\<rparr>,
                      \<lparr>item = 2, phase = Invoked, reaction = ThenBoth\<rparr>],
           executing = {1}, calls = [1, 2], unhandled = [],
           control = Racing {1} [3]\<rparr> \<and>
   Suc 0 < length [\<lparr>item = 1::nat, phase = Settled (Inr 2) :: (string, nat) phase, reaction = ThenBoth\<rparr>,
                      \<lparr>item = 2, phase = Invoked, reaction = ThenBoth\<rparr>] \<and>
   (\<exists>out. phase (\<lparr>item = 1::nat, phase = Settled (Inr 2) :: (string, nat) phase, reaction = ThenBoth\<rparr>)
      = Settled out)"
proof -
  have r: "mapWithLimit [1, 2, 3] 1 double [Invoke, Settle 0, Cleanup 0, RaceWon 0, Invoke] =
     Some \<lparr>results = [\<lparr>item = 1, phase = Settled (Inr 2), reaction = ThenBoth\<rparr>,
                      \<lparr>item = 2, phase = Invoked, reaction = ThenBoth\<rparr>],
           executing = {1}, calls = [1, 2], unhandled = [],
           control = Racing {1} [3]\<rparr>"
    by code_simp
  show ?thesis
    using limit_one_is_sequential [OF r, of 0] r by simp
qed

section \<open>The limit above the number of items\<close>

text \<open>With the limit above the number of items the loop runs through.\<close>

lemma loop_unthrottled:
  assumes "finite (executing s)"
    and "int (card (executing s)) + int (length xs) < limit"
  shows "control (loop reg limit xs s) = Joining"
  using assms
proof (induction xs arbitrary: s)
  case Nil
  show ?case by simp
next
  case (Cons x xs)
  let ?s1 = "s\<lparr>results := results s @ [\<lparr>item = x, phase = Scheduled, reaction = reg\<rparr>],
                 executing := insert (length (results s)) (executing s)\<rparr>"
  have fin: "finite (executing ?s1)" using Cons.prems(1) by simp
  have c: "int (card (executing ?s1)) \<le> int (card (executing s)) + 1"
    using Cons.prems(1) by (simp add: card_insert_if)
  then have lt: "int (card (executing ?s1)) + int (length xs) < limit"
    using Cons.prems(2) by simp
  then have "\<not> limit \<le> int (card (executing ?s1))" by simp
  then have "loop reg limit (x # xs) s = loop reg limit xs ?s1"
    by (simp add: Let_def)
  then show ?case using Cons.IH [OF fin lt] by simp
qed

lemma step_not_racing:
  assumes "step reg f limit ev s = Some s'"
    and "(\<forall>R rest. control s \<noteq> Racing R rest) \<and> map item (results s) = inputs"
  shows "(\<forall>R rest. control s' \<noteq> Racing R rest) \<and> map item (results s') = inputs"
  using assms(1) by (cases rule: step_cases) (use assms(2) in auto)

text \<open>
  Claim C7, as the code has it. With a limit greater than the number of items, every
  item is launched in the first segment of the body and no state of any run is
  suspended at the race: the call is \<open>Promise.all\<close> of all the promises.
\<close>

theorem limit_above_length_never_suspends:
  fixes asyncMapper :: "'a \<Rightarrow> 'e + 'r"
  assumes "int (length inputs) < limit"
    and "mapWithLimit inputs limit asyncMapper evs = Some s"
  shows "(\<forall>R rest. control s \<noteq> Racing R rest) \<and> map item (results s) = inputs"
proof -
  let ?s0 = "loop ThenBoth limit inputs (start :: ('a, 'e, 'r) mapper)"
  have r: "run ThenBoth asyncMapper limit evs ?s0 = Some s"
    using assms(2) by (simp add: mapWithLimit_def)
  have "control ?s0 = Joining"
    using assms(1) by (intro loop_unthrottled) (simp_all add: start_def)
  moreover have "covers inputs ?s0" by (rule loop_covers) (simp add: start_def)
  ultimately have "(\<forall>R rest. control ?s0 \<noteq> Racing R rest) \<and> map item (results ?s0) = inputs"
    by (simp add: covers_def)
  then show ?thesis
    by (rule run_invariant [OF r]) (rule step_not_racing)
qed

theorem limit_above_length_never_suspends_witness:
  "int (length [1, 2 :: nat]) < 3 \<and>
   mapWithLimit [1, 2] 3 double [Invoke, Invoke, Settle 1, Cleanup 1] =
     Some \<lparr>results = [\<lparr>item = 1, phase = Invoked, reaction = ThenBoth\<rparr>,
                      \<lparr>item = 2, phase = Settled (Inr 4), reaction = ThenBoth\<rparr>],
           executing = {0}, calls = [1, 2], unhandled = [],
           control = Joining\<rparr> \<and>
   map item [\<lparr>item = 1::nat, phase = Invoked :: (string, nat) phase, reaction = ThenBoth\<rparr>,
             \<lparr>item = 2, phase = Settled (Inr 4), reaction = ThenBoth\<rparr>] = [1, 2]"
proof -
  have h: "int (length [1, 2 :: nat]) < 3" by simp
  have r: "mapWithLimit [1, 2] 3 double [Invoke, Invoke, Settle 1, Cleanup 1] =
     Some \<lparr>results = [\<lparr>item = 1, phase = Invoked, reaction = ThenBoth\<rparr>,
                      \<lparr>item = 2, phase = Settled (Inr 4), reaction = ThenBoth\<rparr>],
           executing = {0}, calls = [1, 2], unhandled = [],
           control = Joining\<rparr>"
    by code_simp
  show ?thesis
    using limit_above_length_never_suspends [OF h r] h r by simp
qed

text \<open>
  Claim C7 as stated fails when the limit equals the number of items: the set reaches
  the limit at the last launch and the body is suspended at the race.
\<close>

theorem limit_equal_length_suspends_counterexample:
  "mapWithLimit [1, 2] 2 double [] =
     Some \<lparr>results = [\<lparr>item = 1, phase = Scheduled, reaction = ThenBoth\<rparr>,
                      \<lparr>item = 2, phase = Scheduled, reaction = ThenBoth\<rparr>],
           executing = {0, 1}, calls = [], unhandled = [],
           control = Racing {0, 1} []\<rparr>"
  by code_simp

section \<open>The empty input\<close>

text \<open>
  Claim C8. With an empty input and any limit of at least 1, the call launches
  nothing and the first job of the event loop fulfils it with the empty list; no
  other job can run, before or after, so the operation is never invoked.
\<close>

theorem empty_input_returns_empty:
  fixes asyncMapper :: "'a \<Rightarrow> 'e + 'r"
  assumes "1 \<le> limit"
  shows "mapWithLimit [] limit asyncMapper [AllFulfilled] =
           Some (start\<lparr>control := Returned (Inr [])\<rparr>) \<and>
         (mapWithLimit [] limit asyncMapper evs = Some s \<longrightarrow>
            (evs = [] \<or> evs = [AllFulfilled]) \<and> calls s = [] \<and> results s = [])"
proof -
  let ?s0 = "start :: ('a, 'e, 'r) mapper"
  let ?s1 = "?s0\<lparr>control := Returned (Inr [])\<rparr>"
  have l: "loop ThenBoth limit [] ?s0 = ?s0" by (simp add: start_def)
  have first: "ev = AllFulfilled \<and> t = ?s1"
    if "step ThenBoth asyncMapper limit ev ?s0 = Some t" for ev t
    using that by (cases rule: step_cases) (auto simp: start_def)
  have after: "step ThenBoth asyncMapper limit ev ?s1 = None" for ev
    by (cases ev) (auto simp: start_def)
  have one: "step ThenBoth asyncMapper limit AllFulfilled ?s0 = Some ?s1"
    by (simp add: start_def)
  have "(evs = [] \<or> evs = [AllFulfilled]) \<and> calls s = [] \<and> results s = []"
    if r: "run ThenBoth asyncMapper limit evs ?s0 = Some s"
  proof (cases evs)
    case Nil
    then have "s = ?s0" using r by simp
    then show ?thesis using Nil by (simp add: start_def)
  next
    case (Cons ev evs')
    then obtain t where t: "step ThenBoth asyncMapper limit ev ?s0 = Some t"
        "run ThenBoth asyncMapper limit evs' t = Some s"
      using r by (auto split: option.splits)
    have ev: "ev = AllFulfilled" "t = ?s1" using first [OF t(1)] by simp_all
    have "evs' = []"
    proof (cases evs')
      case Nil
      then show ?thesis .
    next
      case (Cons ev2 evs2)
      then show ?thesis using t(2) ev(2) after [of ev2] by simp
    qed
    then have "s = ?s1" using t(2) ev(2) by simp
    then show ?thesis using Cons ev(1) \<open>evs' = []\<close> by (simp add: start_def)
  qed
  then show ?thesis using one l by (simp add: mapWithLimit_def)
qed

theorem empty_input_returns_empty_witness:
  "(1::int) \<le> 2 \<and>
   mapWithLimit [] 2 double [AllFulfilled] =
     Some \<lparr>results = [], executing = {}, calls = [], unhandled = [],
           control = Returned (Inr [])\<rparr>"
  using empty_input_returns_empty [of 2 double "[AllFulfilled]"
      "\<lparr>results = [], executing = {}, calls = [], unhandled = [], control = Returned (Inr [])\<rparr>"]
  by (simp add: start_def)

section \<open>The three copies compared\<close>



























section \<open>A limit of 0 or less\<close>

text \<open>
  Claim C10. With a limit of 0 or less the comparison after each launch always
  succeeds, as it does with the limit 1: on every run both functions are in the same
  state as with the limit 1, and a promise is launched only when the one before it
  has settled.
\<close>

theorem nonpositive_limit_as_one:
  fixes asyncMapper :: "'a \<Rightarrow> 'e + 'r"
  assumes "limit \<le> 0"
  shows "mapWithLimit inputs limit asyncMapper evs = mapWithLimit inputs 1 asyncMapper evs \<and>
         processBatchWithLimit inputs limit asyncMapper evs =
           processBatchWithLimit inputs 1 asyncMapper evs \<and>
         (mapWithLimit inputs limit asyncMapper evs = Some s \<or>
          processBatchWithLimit inputs limit asyncMapper evs = Some s \<longrightarrow>
            (\<forall>k. Suc k < length (results s) \<longrightarrow> (\<exists>out. phase (results s ! k) = Settled out)))"
proof -
  have eq: "run reg asyncMapper limit evs (loop reg limit inputs start) =
      run reg asyncMapper 1 evs (loop reg 1 inputs start)" for reg
  proof -
    have "loop reg limit inputs (start :: ('a, 'e, 'r) mapper) = loop reg 1 inputs start"
      using assms by (intro loop_nonpositive) (simp_all add: start_def)
    moreover have "base (loop reg 1 inputs (start :: ('a, 'e, 'r) mapper))"
      by (rule loop_base) (rule base_start)
    ultimately show ?thesis using run_nonpositive [OF _ assms] by simp
  qed
  have "sequential s"
    if "run reg asyncMapper limit evs (loop reg limit inputs start) = Some s" for reg
    using that eq [of reg] run_sequential [of reg asyncMapper evs inputs s] by simp
  then have "sequential s"
    if "mapWithLimit inputs limit asyncMapper evs = Some s \<or>
        processBatchWithLimit inputs limit asyncMapper evs = Some s"
    using that by (auto simp: mapWithLimit_def processBatchWithLimit_def)
  then show ?thesis
    using eq by (auto simp: mapWithLimit_def processBatchWithLimit_def sequential_def)
qed

theorem nonpositive_limit_as_one_witness:
  "(- 1 :: int) \<le> 0 \<and>
   mapWithLimit [1, 2, 3] (- 1) double [Invoke, Settle 0, Cleanup 0, RaceWon 0, Invoke] =
     mapWithLimit [1, 2, 3] 1 double [Invoke, Settle 0, Cleanup 0, RaceWon 0, Invoke] \<and>
   mapWithLimit [1, 2, 3] (- 1) double [Invoke, Settle 0, Cleanup 0, RaceWon 0, Invoke] =
     Some \<lparr>results = [\<lparr>item = 1, phase = Settled (Inr 2), reaction = ThenBoth\<rparr>,
                      \<lparr>item = 2, phase = Invoked, reaction = ThenBoth\<rparr>],
           executing = {1}, calls = [1, 2], unhandled = [],
           control = Racing {1} [3]\<rparr>"
proof -
  have h: "(- 1 :: int) \<le> 0" by simp
  have r: "mapWithLimit [1, 2, 3] (- 1) double [Invoke, Settle 0, Cleanup 0, RaceWon 0, Invoke] =
     Some \<lparr>results = [\<lparr>item = 1, phase = Settled (Inr 2), reaction = ThenBoth\<rparr>,
                      \<lparr>item = 2, phase = Invoked, reaction = ThenBoth\<rparr>],
           executing = {1}, calls = [1, 2], unhandled = [],
           control = Racing {1} [3]\<rparr>"
    by code_simp
  show ?thesis
    using nonpositive_limit_as_one [OF h, of "[1, 2, 3]" double
        "[Invoke, Settle 0, Cleanup 0, RaceWon 0, Invoke]"] h r
    by simp
qed

end
